theory Spec2Isabelle
  imports Main "HOL-Library.AList"
begin

section \<open>Values and configuration trees\<close>

text \<open>
  Scalars of a configuration, and the values the evaluator handles. A configuration is
  an OmegaConf container: \<open>ListConfig\<close> or \<open>DictConfig\<close>, whose leaves are
  scalars or (with the flag \<open>allow_objects\<close>) arbitrary objects. The results of
  constructors are arbitrary Python values: plain lists and dicts (\<open>PyList\<close>,
  \<open>PyDict\<close>) and opaque objects (\<open>Obj\<close>). Evaluated containers hold such
  values again, so configurations and instances share one type. The entries of a
  \<open>DictConfig\<close> are kept in insertion order, as the Python dict inside it keeps them.
  Interpolations, missing values (\<open>???\<close>) and structured configs are not modelled:
  \<open>instantiate\<close> resolves the configuration before it calls \<open>instantiate_node\<close>.
\<close>

datatype prim = PNone | PBool bool | PInt int | PStr string

datatype node =
    Leaf prim
  | Obj nat
  | ListConfig "node list"
  | DictConfig "(string \<times> node) list"
  | PyList "node list"
  | PyDict "(string \<times> node) list"

text \<open>\<open>OmegaConf.is_config\<close>, \<open>OmegaConf.is_list\<close>, \<open>OmegaConf.is_dict\<close>.\<close>

fun is_config :: "node \<Rightarrow> bool" where
  "is_config (ListConfig _) = True"
| "is_config (DictConfig _) = True"
| "is_config _ = False"

text \<open>
  \<open>OmegaConf.to_container(node, resolve=True)\<close>: containers become plain lists and
  dicts, recursively. \<open>OmegaConf.create\<close> and item assignment go the other way: a
  plain list or dict stored in a container is wrapped into a container.
\<close>

fun to_container :: "node \<Rightarrow> node"
  and to_container_list :: "node list \<Rightarrow> node list"
  and to_container_items :: "(string \<times> node) list \<Rightarrow> (string \<times> node) list" where
  "to_container (ListConfig xs) = PyList (to_container_list xs)"
| "to_container (DictConfig kvs) = PyDict (to_container_items kvs)"
| "to_container (Leaf p) = Leaf p"
| "to_container (Obj n) = Obj n"
| "to_container (PyList xs) = PyList xs"
| "to_container (PyDict kvs) = PyDict kvs"
| "to_container_list [] = []"
| "to_container_list (x # xs) = to_container x # to_container_list xs"
| "to_container_items [] = []"
| "to_container_items ((k, v) # kvs) = (k, to_container v) # to_container_items kvs"

fun wrap :: "node \<Rightarrow> node"
  and wrap_list :: "node list \<Rightarrow> node list"
  and wrap_items :: "(string \<times> node) list \<Rightarrow> (string \<times> node) list" where
  "wrap (PyList xs) = ListConfig (wrap_list xs)"
| "wrap (PyDict kvs) = DictConfig (wrap_items kvs)"
| "wrap (ListConfig xs) = ListConfig xs"
| "wrap (DictConfig kvs) = DictConfig kvs"
| "wrap (Leaf p) = Leaf p"
| "wrap (Obj n) = Obj n"
| "wrap_list [] = []"
| "wrap_list (x # xs) = wrap x # wrap_list xs"
| "wrap_items [] = []"
| "wrap_items ((k, v) # kvs) = (k, wrap v) # wrap_items kvs"

text \<open>Python truthiness, for the value read from \<open>_cache_result_\<close>.\<close>

fun truthy :: "node \<Rightarrow> bool" where
  "truthy (Leaf PNone) = False"
| "truthy (Leaf (PBool b)) = b"
| "truthy (Leaf (PInt i)) = (i \<noteq> 0)"
| "truthy (Leaf (PStr s)) = (s \<noteq> [])"
| "truthy (Obj _) = True"
| "truthy (ListConfig xs) = (xs \<noteq> [])"
| "truthy (DictConfig kvs) = (kvs \<noteq> [])"
| "truthy (PyList xs) = (xs \<noteq> [])"
| "truthy (PyDict kvs) = (kvs \<noteq> [])"

section \<open>hydra\_utils.py: FuncInfo, InstantiatedNodeInfo, InstantiatedNode\<close>

datatype error =
    TypeError
  | AssertionError
  | KeyError
  | IndexError
  | InstantiationException
  | Raised string

record FuncInfo =
  fi_not_deterministic :: bool

text \<open>
  A callable: its name and the attribute \<open>__info\<close> (\<open>KEY_INFO\<close>), which the decorator
  \<open>not_deterministic\<close> sets.
\<close>

record callable =
  func_name :: string
  func_info :: "FuncInfo option"

definition FuncInfo_from_func :: "callable \<Rightarrow> FuncInfo" where
  "FuncInfo_from_func func =
     (case func_info func of Some i \<Rightarrow> i | None \<Rightarrow> \<lparr>fi_not_deterministic = False\<rparr>)"

definition not_deterministic_decorator :: "callable \<Rightarrow> callable" where
  "not_deterministic_decorator func = func\<lparr>func_info := Some \<lparr>fi_not_deterministic = True\<rparr>\<rparr>"

record InstantiatedNodeInfo =
  not_deterministic :: bool
  cache_result :: bool
  deterministic_config :: "node option"
  time_target :: "nat option"

definition default_info :: InstantiatedNodeInfo where
  "default_info = \<lparr>not_deterministic = False, cache_result = True,
     deterministic_config = None, time_target = None\<rparr>"

record InstantiatedNode =
  inst :: node
  info :: InstantiatedNodeInfo

text \<open>
  The keys of \<open>infos\<close>: positions for the items of a list, names for the entries of a
  dict.
\<close>

datatype key = Idx nat | Key string

text \<open>
  \<open>deterministic_config[k] = v\<close> on the copy of the parent. A name replaces the entry
  of a \<open>DictConfig\<close> in place or appends it; a position replaces the item of a
  \<open>ListConfig\<close> and raises out of range. Other combinations do not arise from the
  evaluator and are errors here.
\<close>

fun set_item :: "node \<Rightarrow> key \<Rightarrow> node \<Rightarrow> error + node" where
  "set_item (DictConfig kvs) (Key k) v = Inr (DictConfig (AList.update k v kvs))"
| "set_item (ListConfig xs) (Idx i) v =
     (if i < length xs then Inr (ListConfig (xs[i := v])) else Inl IndexError)"
| "set_item _ _ _ = Inl TypeError"

text \<open>
  The loop of \<open>combine\<close> over \<open>infos.items()\<close>: the first child with a
  \<open>deterministic_config\<close> makes the copy of \<open>parent_config\<close>, and every such child
  is written into it at its key.
\<close>

fun combine_loop ::
  "(key \<times> InstantiatedNodeInfo) list \<Rightarrow> node \<Rightarrow> node option \<Rightarrow> error + node option" where
  "combine_loop [] parent dc = Inr dc"
| "combine_loop ((k, i) # infos) parent dc =
     (case deterministic_config i of
        None \<Rightarrow> combine_loop infos parent dc
      | Some c \<Rightarrow>
          (case set_item (case dc of None \<Rightarrow> parent | Some d \<Rightarrow> d) k c of
             Inl e \<Rightarrow> Inl e
           | Inr d' \<Rightarrow> combine_loop infos parent (Some d')))"

definition combine ::
  "(key \<times> InstantiatedNodeInfo) list \<Rightarrow> node option \<Rightarrow> InstantiatedNodeInfo option \<Rightarrow>
   node option \<Rightarrow> error + InstantiatedNodeInfo" where
  "combine infos parent_config target_info deterministic_config' =
     (case (case deterministic_config' of
              Some d \<Rightarrow> Inr (Some d)
            | None \<Rightarrow>
                (case parent_config of
                   None \<Rightarrow> Inl AssertionError
                 | Some parent \<Rightarrow> combine_loop infos parent None)) of
        Inl e \<Rightarrow> Inl e
      | Inr dc \<Rightarrow>
          (let infos_list = map snd infos @ (case target_info of None \<Rightarrow> [] | Some t \<Rightarrow> [t]);
               nd = (case target_info of None \<Rightarrow> False | Some t \<Rightarrow> not_deterministic t)
           in Inr \<lparr>not_deterministic = nd,
                   cache_result = list_all cache_result infos_list,
                   deterministic_config = dc,
                   time_target = None\<rparr>))"

section \<open>caching/memory.py: InMemoryCache\<close>

text \<open>
  The store of \<open>InMemoryCache\<close> is a Python dict from configurations to instantiated
  nodes, kept here in insertion order. Python finds a key by its hash and \<open>__eq__\<close>;
  both are OmegaConf's, not this repository's, and are taken here as equality of the
  trees (entries in order).
\<close>

type_synonym store = "(node \<times> InstantiatedNode) list"

definition contains :: "store \<Rightarrow> node \<Rightarrow> bool" where
  "contains s k = (map_of s k \<noteq> None)"

definition getitem :: "store \<Rightarrow> node \<Rightarrow> error + InstantiatedNode" where
  "getitem s k = (case map_of s k of None \<Rightarrow> Inl KeyError | Some v \<Rightarrow> Inr v)"

definition setitem :: "store \<Rightarrow> node \<Rightarrow> InstantiatedNode \<Rightarrow> store" where
  "setitem s k v = AList.update k v s"

section \<open>hydra.py: instantiate\_node\<close>

text \<open>
  What the evaluator takes from Hydra and the world: \<open>_resolve_target\<close> (\<open>None\<close>
  when it raises), \<open>_call_target\<close> (the exception or the value of the \<open>n\<close>-th call
  of a constructor, counted over the run, so that a constructor may answer differently
  each time), the time that call takes, and \<open>joblib.hash\<close>.
\<close>

record env =
  resolve_target :: "node \<Rightarrow> callable option"
  call_target :: "nat \<Rightarrow> callable \<Rightarrow> node list \<Rightarrow> (string \<times> node) list \<Rightarrow> string + node"
  elapsed :: "nat \<Rightarrow> nat"
  joblib_hash :: "node \<Rightarrow> string"

text \<open>
  The state of a run: the cache (\<open>None\<close> when caching is disabled) and the log of the
  calls of constructors made so far, each with its callable, positional and keyword arguments.
\<close>

record state =
  cache :: "store option"
  calls :: "(callable \<times> node list \<times> (string \<times> node) list) list"

text \<open>
  Hydra's \<open>ConvertMode\<close>, and the mode a value of the key \<open>_convert_\<close> stands
  for; a value that is none of the three names compares unequal to every mode.
\<close>

datatype ConvertMode = CM_NONE | CM_PARTIAL | CM_ALL | CM_OTHER

fun convert_of :: "node \<Rightarrow> ConvertMode" where
  "convert_of (Leaf (PStr s)) =
     (if s = ''none'' then CM_NONE else if s = ''partial'' then CM_PARTIAL
      else if s = ''all'' then CM_ALL else CM_OTHER)"
| "convert_of _ = CM_OTHER"

definition convert_node :: "node \<Rightarrow> ConvertMode \<Rightarrow> node" where
  "convert_node n convert =
     (if is_config n \<and> (convert = CM_ALL \<or> convert = CM_PARTIAL) then to_container n else n)"

definition exclude_keys :: "string set" where
  "exclude_keys = {''_target_'', ''_convert_'', ''_recursive_'', ''_cache_result_'', ''_result_hash_''}"

definition result_hash :: "string \<Rightarrow> node" where
  "result_hash h = DictConfig [(''_result_hash_'', Leaf (PStr h))]"

text \<open>
  \<open>node in cache\<close> followed by \<open>cache[node]\<close>, for an optional cache: the entry
  when there is a cache and the key is in it.
\<close>

definition cache_lookup :: "state \<Rightarrow> node \<Rightarrow> InstantiatedNode option" where
  "cache_lookup st k =
     (case cache st of
        None \<Rightarrow> None
      | Some s \<Rightarrow>
          if contains s k then (case getitem s k of Inl err \<Rightarrow> None | Inr v \<Rightarrow> Some v)
          else None)"

definition cache_store :: "state \<Rightarrow> node \<Rightarrow> InstantiatedNode \<Rightarrow> state" where
  "cache_store st k v = st\<lparr>cache := map_option (\<lambda>s. setitem s k v) (cache st)\<rparr>"

text \<open>
  \<open>InstantiatedNodeInfo.from_func(target, cache_result=node.get("_cache_result_", True))\<close>.
\<close>

definition target_info_of :: "callable \<Rightarrow> (string \<times> node) list \<Rightarrow> InstantiatedNodeInfo" where
  "target_info_of target kvs =
     \<lparr>not_deterministic = fi_not_deterministic (FuncInfo_from_func target),
      cache_result = (case map_of kvs ''_cache_result_'' of None \<Rightarrow> True | Some v \<Rightarrow> truthy v),
      deterministic_config = None,
      time_target = None\<rparr>"

type_synonym outcome = "(error + InstantiatedNode) \<times> state"

text \<open>
  Lines 221 to 247 of \<open>instantiate_node\<close>: the call of the constructor, the info of a
  constructor that is not deterministic, and the writes to the cache. An exception of the
  constructor leaves the function before any write.
\<close>

definition call_and_store ::
  "env \<Rightarrow> node \<Rightarrow> callable \<Rightarrow> node list \<Rightarrow> (string \<times> node) list \<Rightarrow>
   (key \<times> InstantiatedNodeInfo) list \<Rightarrow> InstantiatedNodeInfo \<Rightarrow> node \<Rightarrow>
   InstantiatedNodeInfo option \<Rightarrow> state \<Rightarrow> outcome" where
  "call_and_store e node' target args kwargs infos target_info cache_key result_info st =
     (let n = length (calls st);
          st1 = st\<lparr>calls := calls st @ [(target, args, kwargs)]\<rparr>
      in case call_target e n target args kwargs of
           Inl msg \<Rightarrow> (Inl (Raised msg), st1)
         | Inr result_instance \<Rightarrow>
             (case (case result_info of
                      Some ri \<Rightarrow> Inr ri
                    | None \<Rightarrow>
                        combine infos None (Some target_info)
                          (Some (result_hash (joblib_hash e result_instance)))) of
                Inl err \<Rightarrow> (Inl err, st1)
              | Inr ri \<Rightarrow>
                  (let ri' = ri\<lparr>time_target := Some (elapsed e n)\<rparr>;
                       result = \<lparr>inst = result_instance, info = ri'\<rparr>
                   in if cache st1 \<noteq> None \<and> cache_result ri' then
                        (let st2 = cache_store st1 cache_key result
                         in (Inr result,
                             if cache_key \<noteq> node' then
                               cache_store st2 node'
                                 \<lparr>inst = result_instance,
                                  info = ri'\<lparr>not_deterministic := True\<rparr>\<rparr>
                             else st2))
                      else (Inr result, st1))))"

text \<open>
  Lines 203 to 219: for a deterministic constructor the info is combined before the
  call, and a \<open>deterministic_config\<close> is looked up in the cache and becomes the key.
\<close>

definition finish_call ::
  "env \<Rightarrow> (string \<times> node) list \<Rightarrow> callable \<Rightarrow> node list \<Rightarrow> (string \<times> node) list \<Rightarrow>
   (key \<times> InstantiatedNodeInfo) list \<Rightarrow> state \<Rightarrow> outcome" where
  "finish_call e kvs target args kwargs infos st =
     (let node' = DictConfig kvs;
          target_info = target_info_of target kvs
      in if \<not> not_deterministic target_info then
           (case combine infos (Some node') (Some target_info) None of
              Inl err \<Rightarrow> (Inl err, st)
            | Inr result_info \<Rightarrow>
                (case deterministic_config result_info of
                   Some dc \<Rightarrow>
                     (case cache_lookup st dc of
                        Some r \<Rightarrow> (Inr r, st)
                      | None \<Rightarrow>
                          call_and_store e node' target args kwargs infos target_info dc
                            (Some result_info) st)
                 | None \<Rightarrow>
                     call_and_store e node' target args kwargs infos target_info node'
                       (Some result_info) st))
         else call_and_store e node' target args kwargs infos target_info node' None st)"

text \<open>The containers built from evaluated children, and their infos.\<close>

definition list_result :: "ConvertMode \<Rightarrow> node list \<Rightarrow> InstantiatedNode list \<Rightarrow> error + InstantiatedNode" where
  "list_result convert xs rs =
     (case combine (zip (map Idx [0..<length rs]) (map info rs)) (Some (ListConfig xs)) None None of
        Inl err \<Rightarrow> Inl err
      | Inr i \<Rightarrow>
          Inr \<lparr>inst = (if convert = CM_ALL \<or> convert = CM_PARTIAL then PyList (map inst rs)
                        else ListConfig (map (wrap \<circ> inst) rs)),
               info = i\<rparr>)"

definition infos_of :: "(string \<times> InstantiatedNode) list \<Rightarrow> (key \<times> InstantiatedNodeInfo) list" where
  "infos_of krs = map (\<lambda>(k, r). (Key k, info r)) krs"

definition dict_result ::
  "ConvertMode \<Rightarrow> (string \<times> node) list \<Rightarrow> (string \<times> InstantiatedNode) list \<Rightarrow> error + InstantiatedNode" where
  "dict_result convert kvs krs =
     (case combine (infos_of krs) (Some (DictConfig kvs)) None None of
        Inl err \<Rightarrow> Inl err
      | Inr i \<Rightarrow>
          Inr \<lparr>inst = (if convert = CM_ALL \<or> convert = CM_PARTIAL
                        then PyDict (map (\<lambda>(k, r). (k, inst r)) krs)
                        else DictConfig (map (\<lambda>(k, r). (k, wrap (inst r))) krs)),
               info = i\<rparr>)"

text \<open>
  Lines 153 to 157: a dict overrides the modes of its parent with its own keys
  \<open>_convert_\<close> and \<open>_recursive_\<close>.
\<close>

definition effective_convert :: "(string \<times> node) list \<Rightarrow> ConvertMode \<Rightarrow> ConvertMode" where
  "effective_convert kvs convert =
     (case map_of kvs ''_convert_'' of None \<Rightarrow> convert | Some c \<Rightarrow> convert_of c)"

definition effective_recursive :: "(string \<times> node) list \<Rightarrow> node \<Rightarrow> node" where
  "effective_recursive kvs recursive =
     (case map_of kvs ''_recursive_'' of None \<Rightarrow> recursive | Some r \<Rightarrow> r)"

text \<open>
  \<open>instantiate_node\<close>. The flag \<open>recursive\<close> is the value the configuration gives,
  checked to be a bool at every container. The loops over the items of a list and the
  entries of a dict are the functions \<open>instantiate_items\<close> and \<open>instantiate_entries\<close>;
  the latter skips the reserved keys when it runs for a node with a target. Positional
  arguments reach only the constructor of the node \<open>instantiate_node\<close> was called on.
\<close>

fun instantiate_node ::
    "env \<Rightarrow> ConvertMode \<Rightarrow> node \<Rightarrow> node list \<Rightarrow> state \<Rightarrow> node \<Rightarrow> outcome"
  and instantiate_items ::
    "env \<Rightarrow> ConvertMode \<Rightarrow> node \<Rightarrow> state \<Rightarrow> node list \<Rightarrow>
     (error + InstantiatedNode list) \<times> state"
  and instantiate_entries ::
    "env \<Rightarrow> ConvertMode \<Rightarrow> node \<Rightarrow> bool \<Rightarrow> state \<Rightarrow> (string \<times> node) list \<Rightarrow>
     (error + (string \<times> InstantiatedNode) list) \<times> state" where
  "instantiate_node e convert recursive args st (Leaf p) =
     (Inr \<lparr>inst = Leaf p, info = default_info\<rparr>, st)"
| "instantiate_node e convert recursive args st (Obj n) =
     (Inr \<lparr>inst = Obj n, info = default_info\<rparr>, st)"
| "instantiate_node e convert recursive args st (PyList xs) =
     (Inr \<lparr>inst = PyList xs, info = default_info\<rparr>, st)"
| "instantiate_node e convert recursive args st (PyDict kvs) =
     (Inr \<lparr>inst = PyDict kvs, info = default_info\<rparr>, st)"
| "instantiate_node e convert recursive args st (ListConfig xs) =
     (case recursive of
        Leaf (PBool rc) \<Rightarrow>
          (case instantiate_items e convert recursive st xs of
             (Inl err, st') \<Rightarrow> (Inl err, st')
           | (Inr rs, st') \<Rightarrow> (list_result convert xs rs, st'))
      | _ \<Rightarrow> (Inl TypeError, st))"
| "instantiate_node e convert recursive args st (DictConfig kvs) =
     (let convert' = effective_convert kvs convert;
          recursive' = effective_recursive kvs recursive
      in case recursive' of
           Leaf (PBool rc) \<Rightarrow>
             (case map_of kvs ''_target_'' of
                Some t \<Rightarrow>
                  (case cache_lookup st (DictConfig kvs) of
                     Some r \<Rightarrow> (Inr r, st)
                   | None \<Rightarrow>
                       (case resolve_target e t of
                          None \<Rightarrow> (Inl InstantiationException, st)
                        | Some target \<Rightarrow>
                            if rc then
                              (case instantiate_entries e convert' recursive' True st kvs of
                                 (Inl err, st') \<Rightarrow> (Inl err, st')
                               | (Inr krs, st') \<Rightarrow>
                                   finish_call e kvs target args
                                     (map (\<lambda>(k, r). (k, convert_node (inst r) convert')) krs)
                                     (infos_of krs) st')
                            else
                              finish_call e kvs target args
                                (map (\<lambda>(k, v). (k, convert_node v convert'))
                                   (filter (\<lambda>(k, v). k \<notin> exclude_keys) kvs))
                                [] st))
              | None \<Rightarrow>
                  (case instantiate_entries e convert' recursive' False st kvs of
                     (Inl err, st') \<Rightarrow> (Inl err, st')
                   | (Inr krs, st') \<Rightarrow> (dict_result convert' kvs krs, st')))
         | _ \<Rightarrow> (Inl TypeError, st))"
| "instantiate_items e convert recursive st [] = (Inr [], st)"
| "instantiate_items e convert recursive st (x # xs) =
     (case instantiate_node e convert recursive [] st x of
        (Inl err, st') \<Rightarrow> (Inl err, st')
      | (Inr r, st') \<Rightarrow>
          (case instantiate_items e convert recursive st' xs of
             (Inl err, st'') \<Rightarrow> (Inl err, st'')
           | (Inr rs, st'') \<Rightarrow> (Inr (r # rs), st'')))"
| "instantiate_entries e convert recursive skip st [] = (Inr [], st)"
| "instantiate_entries e convert recursive skip st ((k, v) # kvs) =
     (if skip \<and> k \<in> exclude_keys then instantiate_entries e convert recursive skip st kvs
      else
        (case instantiate_node e convert recursive [] st v of
           (Inl err, st') \<Rightarrow> (Inl err, st')
         | (Inr r, st') \<Rightarrow>
             (case instantiate_entries e convert recursive skip st' kvs of
                (Inl err, st'') \<Rightarrow> (Inl err, st'')
              | (Inr krs, st'') \<Rightarrow> (Inr ((k, r) # krs), st''))))"

section \<open>caching/dumpable.py: DumpableInMemoryCache.dump\<close>












section \<open>Predicates on configurations and caches\<close>

text \<open>A configuration that holds the reserved key \<open>_result_hash_\<close> somewhere.\<close>

fun has_result_hash :: "node \<Rightarrow> bool"
  and has_result_hash_list :: "node list \<Rightarrow> bool"
  and has_result_hash_items :: "(string \<times> node) list \<Rightarrow> bool" where
  "has_result_hash (DictConfig kvs) = has_result_hash_items kvs"
| "has_result_hash (ListConfig xs) = has_result_hash_list xs"
| "has_result_hash (Leaf p) = False"
| "has_result_hash (Obj n) = False"
| "has_result_hash (PyList xs) = False"
| "has_result_hash (PyDict kvs) = False"
| "has_result_hash_list [] = False"
| "has_result_hash_list (x # xs) = (has_result_hash x \<or> has_result_hash_list xs)"
| "has_result_hash_items [] = False"
| "has_result_hash_items ((k, v) # kvs) =
     (k = ''_result_hash_'' \<or> has_result_hash v \<or> has_result_hash_items kvs)"

text \<open>
  A configuration all of whose constructors are deterministic: every target in it that
  resolves has no \<open>not_deterministic\<close> mark.
\<close>

fun deterministic_tree :: "env \<Rightarrow> node \<Rightarrow> bool"
  and deterministic_list :: "env \<Rightarrow> node list \<Rightarrow> bool"
  and deterministic_items :: "env \<Rightarrow> (string \<times> node) list \<Rightarrow> bool" where
  "deterministic_tree e (DictConfig kvs) =
     ((case map_of kvs ''_target_'' of
         None \<Rightarrow> True
       | Some t \<Rightarrow>
           (case resolve_target e t of
              None \<Rightarrow> True
            | Some f \<Rightarrow> \<not> fi_not_deterministic (FuncInfo_from_func f)))
      \<and> deterministic_items e kvs)"
| "deterministic_tree e (ListConfig xs) = deterministic_list e xs"
| "deterministic_tree e (Leaf p) = True"
| "deterministic_tree e (Obj n) = True"
| "deterministic_tree e (PyList xs) = True"
| "deterministic_tree e (PyDict kvs) = True"
| "deterministic_list e [] = True"
| "deterministic_list e (x # xs) = (deterministic_tree e x \<and> deterministic_list e xs)"
| "deterministic_items e [] = True"
| "deterministic_items e ((k, v) # kvs) = (deterministic_tree e v \<and> deterministic_items e kvs)"

definition clean :: "InstantiatedNodeInfo \<Rightarrow> bool" where
  "clean i = (\<not> not_deterministic i \<and> deterministic_config i = None)"

text \<open>
  What holds of every entry the evaluator writes: a stored substitute holds a result
  hash, and an entry with a mark or a substitute stands under a key that holds a result
  hash or a constructor that is not deterministic.
\<close>

definition subst_ok :: "InstantiatedNodeInfo \<Rightarrow> bool" where
  "subst_ok i = (case deterministic_config i of None \<Rightarrow> True | Some d \<Rightarrow> has_result_hash d)"

definition entry_ok :: "env \<Rightarrow> node \<Rightarrow> InstantiatedNodeInfo \<Rightarrow> bool" where
  "entry_ok e k i =
     ((case deterministic_config i of None \<Rightarrow> True | Some d \<Rightarrow> has_result_hash d) \<and>
      (clean i \<or> has_result_hash k \<or> \<not> deterministic_tree e k))"

definition cache_ok :: "env \<Rightarrow> state \<Rightarrow> bool" where
  "cache_ok e st =
     (case cache st of None \<Rightarrow> True | Some s \<Rightarrow> list_all (\<lambda>(k, r). entry_ok e k (info r)) s)"

section \<open>Notions of the statements\<close>

text \<open>The entry written under the original configuration next to a substitute key.\<close>

definition marked :: "InstantiatedNode \<Rightarrow> InstantiatedNode" where
  "marked r = r\<lparr>info := (info r)\<lparr>not_deterministic := True\<rparr>\<rparr>"

text \<open>
  The keyword arguments of a node that is not evaluated recursively: its entries but the
  reserved keys, each converted and otherwise as the configuration has it.
\<close>

definition raw_kwargs :: "(string \<times> node) list \<Rightarrow> ConvertMode \<Rightarrow> (string \<times> node) list" where
  "raw_kwargs kvs convert =
     map (\<lambda>(k, v). (k, convert_node v convert)) (filter (\<lambda>(k, v). k \<notin> exclude_keys) kvs)"

text \<open>The error of an outcome, if any.\<close>

definition err_of :: "error + 'a \<Rightarrow> error option" where
  "err_of res = (case res of Inl err \<Rightarrow> Some err | Inr _ \<Rightarrow> None)"


text \<open>
  The configuration of a dict with the substitute \<open>d\<close> written at the key \<open>k\<close>.
\<close>

definition substitute_at :: "(string \<times> node) list \<Rightarrow> string \<Rightarrow> node \<Rightarrow> node" where
  "substitute_at kvs k d = DictConfig (AList.update k d kvs)"


section \<open>Example configurations\<close>

text \<open>
  Four constructors: \<open>add\<close> sums its arguments \<open>a\<close> and \<open>b\<close>, \<open>random_source\<close>
  carries the mark \<open>not_deterministic\<close> and returns the number given to the
  environment, \<open>consumer\<close> returns a new object at every call, and \<open>fail\<close> raises.
\<close>

definition f_add :: callable where
  "f_add = \<lparr>func_name = ''add'', func_info = None\<rparr>"

definition f_random_source :: callable where
  "f_random_source = not_deterministic_decorator \<lparr>func_name = ''random_source'', func_info = None\<rparr>"

definition f_consumer :: callable where
  "f_consumer = \<lparr>func_name = ''consumer'', func_info = None\<rparr>"

definition f_fail :: callable where
  "f_fail = \<lparr>func_name = ''fail'', func_info = None\<rparr>"

definition ex_resolve :: "node \<Rightarrow> callable option" where
  "ex_resolve t =
     (if t = Leaf (PStr ''add'') then Some f_add
      else if t = Leaf (PStr ''random_source'') then Some f_random_source
      else if t = Leaf (PStr ''consumer'') then Some f_consumer
      else if t = Leaf (PStr ''fail'') then Some f_fail
      else None)"

definition ex_call :: "int \<Rightarrow> nat \<Rightarrow> callable \<Rightarrow> node list \<Rightarrow> (string \<times> node) list \<Rightarrow> string + node" where
  "ex_call v n f args kwargs =
     (if func_name f = ''add'' then
        (case (map_of kwargs ''a'', map_of kwargs ''b'') of
           (Some (Leaf (PInt a)), Some (Leaf (PInt b))) \<Rightarrow> Inr (Leaf (PInt (a + b)))
         | _ \<Rightarrow> Inl ''add: bad arguments'')
      else if func_name f = ''random_source'' then Inr (Leaf (PInt v))
      else if func_name f = ''consumer'' then Inr (Obj n)
      else Inl ''boom'')"

definition ex_hash :: "node \<Rightarrow> string" where
  "ex_hash x = (if x = Leaf (PInt 7) then ''h7'' else if x = Leaf (PInt 8) then ''h8'' else ''h0'')"

definition ex_env :: "int \<Rightarrow> env" where
  "ex_env v = \<lparr>resolve_target = ex_resolve, call_target = ex_call v,
               elapsed = (\<lambda>n. 5), joblib_hash = ex_hash\<rparr>"

definition empty_cache :: state where
  "empty_cache = \<lparr>cache = Some [], calls = []\<rparr>"

definition py_true :: node where
  "py_true = Leaf (PBool True)"

definition call_node :: "string \<Rightarrow> (string \<times> node) list \<Rightarrow> node" where
  "call_node t kvs = DictConfig ((''_target_'', Leaf (PStr t)) # kvs)"

definition ex_random :: node where
  "ex_random = call_node ''random_source'' []"

definition ex_consumer :: node where
  "ex_consumer = call_node ''consumer'' [(''x'', ex_random)]"

definition ex_substitute :: "string \<Rightarrow> node" where
  "ex_substitute h = call_node ''consumer'' [(''x'', result_hash h)]"

definition ex_sum :: node where
  "ex_sum = call_node ''add'' [(''a'', Leaf (PInt 1)),
     (''b'', call_node ''add'' [(''a'', Leaf (PInt 2)), (''b'', Leaf (PInt 3))])]"

definition ex_flagged :: node where
  "ex_flagged = call_node ''add''
     [(''a'', call_node ''add'' [(''a'', Leaf (PInt 1)), (''b'', Leaf (PInt 2))]),
      (''b'', call_node ''add''
         [(''_cache_result_'', Leaf (PBool False)), (''a'', Leaf (PInt 1)), (''b'', Leaf (PInt 1))])]"

definition ex_run_random :: outcome where
  "ex_run_random = instantiate_node (ex_env 7) CM_NONE py_true [] empty_cache ex_random"

definition ex_run_consumer :: outcome where
  "ex_run_consumer = instantiate_node (ex_env 7) CM_NONE py_true [] empty_cache ex_consumer"

definition ex_finish_consumer :: outcome where
  "ex_finish_consumer =
     finish_call (ex_env 7) [(''_target_'', Leaf (PStr ''consumer'')), (''x'', ex_random)] f_consumer []
       [(''x'', Leaf (PInt 7))] [(Key ''x'', info (projr (fst ex_run_random)))] (snd ex_run_random)"

definition ex_random_flat :: node where
  "ex_random_flat = call_node ''random_source'' [(''_recursive_'', Leaf (PBool False))]"

definition ex_uncached :: node where
  "ex_uncached = call_node ''consumer'' [(''_cache_result_'', Leaf (PBool False))]"

definition ex_run_uncached :: outcome where
  "ex_run_uncached = instantiate_node (ex_env 7) CM_NONE py_true [] empty_cache ex_uncached"

definition ex_failing :: node where
  "ex_failing = call_node ''consumer''
     [(''a'', call_node ''add'' [(''a'', Leaf (PInt 1)), (''b'', Leaf (PInt 2))]),
      (''b'', call_node ''fail'' []),
      (''c'', call_node ''add'' [(''a'', Leaf (PInt 3)), (''b'', Leaf (PInt 4))])]"

definition ex_after_consumer :: state where
  "ex_after_consumer = snd ex_run_consumer"

text \<open>
  A cache restored with the entry under the substitute key alone: what a dump with
  \<open>not_deterministic_constraint\<close> keeps of the cache after \<open>ex_consumer\<close>.
\<close>

definition ex_restored :: state where
  "ex_restored = \<lparr>cache = Some [(ex_substitute ''h7'', projr (fst ex_run_consumer))], calls = []\<rparr>"




section \<open>Evaluating the examples\<close>

lemma cache_lookup_eq:
  "cache_lookup st k = (case cache st of None \<Rightarrow> None | Some s \<Rightarrow> map_of s k)"
  by (auto simp: cache_lookup_def contains_def getitem_def split: option.splits)

lemmas ex_defs = ex_restored_def substitute_at_def ex_after_consumer_def ex_failing_def ex_uncached_def ex_run_uncached_def ex_random_flat_def raw_kwargs_def ex_run_random_def ex_run_consumer_def ex_finish_consumer_def marked_def ex_flagged_def ex_sum_def ex_consumer_def ex_random_def ex_substitute_def call_node_def
  ex_env_def empty_cache_def py_true_def ex_resolve_def ex_call_def ex_hash_def f_add_def
  f_consumer_def f_random_source_def f_fail_def not_deterministic_decorator_def

lemmas eval_defs = cache_lookup_eq finish_call_def call_and_store_def combine_def
  target_info_of_def infos_of_def exclude_keys_def convert_node_def FuncInfo_from_func_def
  cache_store_def setitem_def result_hash_def Let_def list_result_def dict_result_def
  default_info_def effective_convert_def effective_recursive_def


lemmas pred_defs = cache_ok_def entry_ok_def clean_def

section \<open>One step of instantiate\_node at a node with a target\<close>

lemma instantiate_node_hit:
  assumes "map_of kvs ''_target_'' = Some t"
    and "effective_recursive kvs recursive = Leaf (PBool rc)"
    and "cache_lookup st (DictConfig kvs) = Some r"
  shows "instantiate_node e convert recursive args st (DictConfig kvs) = (Inr r, st)"
  using assms by (simp add: Let_def)

lemma instantiate_node_miss:
  assumes "map_of kvs ''_target_'' = Some t"
    and "effective_recursive kvs recursive = Leaf (PBool rc)"
    and "cache_lookup st (DictConfig kvs) = None"
    and "resolve_target e t = Some target"
  shows "instantiate_node e convert recursive args st (DictConfig kvs) =
     (if rc then
        (case instantiate_entries e (effective_convert kvs convert) (Leaf (PBool rc)) True st kvs of
           (Inl err, st') \<Rightarrow> (Inl err, st')
         | (Inr krs, st') \<Rightarrow>
             finish_call e kvs target args
               (map (\<lambda>(k, r). (k, convert_node (inst r) (effective_convert kvs convert))) krs)
               (infos_of krs) st')
      else
        finish_call e kvs target args
          (map (\<lambda>(k, v). (k, convert_node v (effective_convert kvs convert)))
             (filter (\<lambda>(k, v). k \<notin> exclude_keys) kvs))
          [] st)"
  using assms by (simp add: Let_def)

section \<open>Writes to the cache\<close>


lemma combine_not_deterministic:
  "combine infos parent ti dc = Inr r \<Longrightarrow>
   not_deterministic r = (case ti of None \<Rightarrow> False | Some t \<Rightarrow> not_deterministic t)"
  by (auto simp: combine_def Let_def split: option.splits sum.splits)



section \<open>What every entry of the cache satisfies\<close>

lemma has_result_hash_items_update:
  "has_result_hash c \<Longrightarrow> has_result_hash_items (AList.update k c kvs)"
  by (induction kvs) auto

lemma has_result_hash_list_update:
  "has_result_hash c \<Longrightarrow> i < length xs \<Longrightarrow> has_result_hash_list (xs[i := c])"
  by (induction xs arbitrary: i) (auto split: nat.splits)

lemma set_item_has_result_hash:
  "set_item p k c = Inr d \<Longrightarrow> has_result_hash c \<Longrightarrow> has_result_hash d"
  by (cases "(p, k, c)" rule: set_item.cases)
     (auto simp: has_result_hash_items_update has_result_hash_list_update split: if_splits)

lemma combine_loop_has_result_hash:
  "combine_loop infos parent dc = Inr (Some d) \<Longrightarrow>
   \<forall>i \<in> snd ` set infos. subst_ok i \<Longrightarrow>
   (case dc of None \<Rightarrow> True | Some d0 \<Rightarrow> has_result_hash d0) \<Longrightarrow>
   has_result_hash d"
proof (induction infos parent dc rule: combine_loop.induct)
  case (1 parent dc)
  then show ?case by simp
next
  case (2 k i infos parent dc)
  show ?case
  proof (cases "deterministic_config i")
    case None
    with 2 show ?thesis by simp
  next
    case (Some c)
    with 2 have hc: "has_result_hash c" by (simp add: subst_ok_def)
    from 2(3) Some obtain d' where
      s: "set_item (case dc of None \<Rightarrow> parent | Some d \<Rightarrow> d) k c = Inr d'"
      and l: "combine_loop infos parent (Some d') = Inr (Some d)"
      by (auto split: sum.splits)
    from set_item_has_result_hash[OF s hc] have "has_result_hash d'" .
    with 2(2)[OF Some s l] 2(4) show ?thesis by simp
  qed
qed

lemma combine_loop_None_dirty:
  "combine_loop infos parent None = Inr (Some d) \<Longrightarrow>
   \<exists>i \<in> snd ` set infos. deterministic_config i \<noteq> None"
proof (induction infos)
  case Nil
  then show ?case by simp
next
  case (Cons a infos)
  then show ?case by (cases a) (auto split: option.splits)
qed

lemma combine_loop_all_None:
  "\<forall>i \<in> snd ` set infos. deterministic_config i = None \<Longrightarrow>
   combine_loop infos parent dc = Inr dc"
  by (induction infos parent dc rule: combine_loop.induct) auto


lemma list_all_update:
  "list_all P s \<Longrightarrow> P (k, v) \<Longrightarrow> list_all P (AList.update k v s)"
  by (induction s) auto

lemma cache_ok_store:
  "cache_ok e st \<Longrightarrow> entry_ok e k (info v) \<Longrightarrow> cache_ok e (cache_store st k v)"
  by (auto simp: cache_ok_def cache_store_def setitem_def list_all_update split: option.splits)

lemma cache_ok_calls [simp]: "cache_ok e (st\<lparr>calls := c\<rparr>) = cache_ok e st"
  by (simp add: cache_ok_def)

lemma cache_ok_lookup:
  "cache_ok e st \<Longrightarrow> cache_lookup st k = Some r \<Longrightarrow> entry_ok e k (info r)"
  by (auto simp: cache_ok_def cache_lookup_eq list_all_iff split: option.splits dest!: map_of_SomeD)

lemma entry_ok_time [simp]: "entry_ok e k (i\<lparr>time_target := t\<rparr>) = entry_ok e k i"
  by (simp add: entry_ok_def clean_def)

lemma call_and_store_given_ok:
  assumes "cache_ok e st"
    and "call_and_store e n target args kwargs infos ti ck (Some ri) st = (res, st')"
    and "entry_ok e ck ri" and "entry_ok e n ri"
    and "ck \<noteq> n \<Longrightarrow> entry_ok e n (ri\<lparr>not_deterministic := True\<rparr>)"
  shows "cache_ok e st' \<and> (\<forall>r. res = Inr r \<longrightarrow> entry_ok e n (info r))"
  using assms
  by (auto simp: call_and_store_def Let_def entry_ok_def clean_def
           intro!: cache_ok_store split: sum.splits if_splits)

lemma call_and_store_hash_ok:
  assumes "cache_ok e st"
    and "call_and_store e n target args kwargs infos ti n None st = (res, st')"
    and "\<not> deterministic_tree e n"
  shows "cache_ok e st' \<and> (\<forall>r. res = Inr r \<longrightarrow> entry_ok e n (info r))"
proof -
  have ok: "entry_ok e n i" if "combine infos None (Some ti) (Some (result_hash h)) = Inr i" for i h
    using that assms(3)
    by (auto simp: combine_def Let_def entry_ok_def result_hash_def)
  show ?thesis
    using assms(1,2) ok
    by (auto simp: call_and_store_def Let_def intro!: cache_ok_store split: sum.splits if_splits)
qed


lemma combine_parent_ok:
  assumes c: "combine infos (Some p) ti None = Inr ri"
    and sub: "\<forall>i \<in> snd ` set infos. subst_ok i"
    and dirty: "(\<exists>i \<in> snd ` set infos. deterministic_config i \<noteq> None) \<Longrightarrow>
                has_result_hash p \<or> \<not> deterministic_tree e p"
    and nd: "not_deterministic ri \<Longrightarrow> has_result_hash p \<or> \<not> deterministic_tree e p"
  shows "entry_ok e p ri \<and> entry_ok e p (ri\<lparr>not_deterministic := True\<rparr>) \<or>
         deterministic_config ri = None \<and> entry_ok e p ri"
proof (cases "deterministic_config ri")
  case None
  with nd show ?thesis by (auto simp: entry_ok_def clean_def)
next
  case (Some d)
  with c have l: "combine_loop infos p None = Inr (Some d)"
    by (auto simp: combine_def Let_def split: sum.splits)
  from combine_loop_has_result_hash[OF l sub] have "has_result_hash d" by simp
  moreover from combine_loop_None_dirty[OF l] dirty
  have "has_result_hash p \<or> \<not> deterministic_tree e p" by blast
  ultimately show ?thesis using Some by (auto simp: entry_ok_def)
qed

lemma finish_call_ok:
  assumes ok: "cache_ok e st"
    and f: "finish_call e kvs target args kwargs infos st = (res, st')"
    and t: "map_of kvs ''_target_'' = Some t" "resolve_target e t = Some target"
    and sub: "\<forall>i \<in> snd ` set infos. subst_ok i"
    and dirty: "(\<exists>i \<in> snd ` set infos. deterministic_config i \<noteq> None) \<Longrightarrow>
                has_result_hash (DictConfig kvs) \<or> \<not> deterministic_tree e (DictConfig kvs)"
  shows "cache_ok e st' \<and> (\<forall>r. res = Inr r \<longrightarrow> entry_ok e (DictConfig kvs) (info r))"
proof (cases "not_deterministic (target_info_of target kvs)")
  case True
  then have "\<not> deterministic_tree e (DictConfig kvs)"
    using t by (simp add: target_info_of_def)
  with True f ok show ?thesis
    by (auto simp: finish_call_def Let_def dest: call_and_store_hash_ok)
next
  case False
  show ?thesis
  proof (cases "combine infos (Some (DictConfig kvs)) (Some (target_info_of target kvs)) None")
    case (Inl err)
    with False f ok show ?thesis by (auto simp: finish_call_def Let_def)
  next
    case (Inr ri)
    have nd: "\<not> not_deterministic ri"
      using Inr False by (auto simp: combine_def Let_def split: sum.splits)
    from combine_parent_ok[OF Inr sub dirty] nd
    have p: "entry_ok e (DictConfig kvs) ri \<and>
             entry_ok e (DictConfig kvs) (ri\<lparr>not_deterministic := True\<rparr>) \<or>
             deterministic_config ri = None \<and> entry_ok e (DictConfig kvs) ri"
      by blast
    show ?thesis
    proof (cases "deterministic_config ri")
      case None
      with p have "entry_ok e (DictConfig kvs) ri" by blast
      with None Inr False f ok show ?thesis
        by (auto simp: finish_call_def Let_def dest: call_and_store_given_ok)
    next
      case (Some d)
      with p have p1: "entry_ok e (DictConfig kvs) ri"
        and p2: "entry_ok e (DictConfig kvs) (ri\<lparr>not_deterministic := True\<rparr>)" by auto
      from p1 Some have hd: "has_result_hash d" by (simp add: entry_ok_def)
      with Some have p3: "entry_ok e d ri" by (simp add: entry_ok_def)
      from p2 have side: "has_result_hash (DictConfig kvs) \<or> \<not> deterministic_tree e (DictConfig kvs)"
        by (simp add: entry_ok_def clean_def)
      show ?thesis
      proof (cases "cache_lookup st d")
        case None
        with Some Inr False f have
          "call_and_store e (DictConfig kvs) target args kwargs infos (target_info_of target kvs) d (Some ri) st = (res, st')"
          by (simp add: finish_call_def Let_def)
        from call_and_store_given_ok[OF ok this p3 p1 p2] show ?thesis .
      next
        case (Some r)
        from cache_ok_lookup[OF ok Some] side have "entry_ok e (DictConfig kvs) (info r)"
          by (simp add: entry_ok_def)
        with Some \<open>deterministic_config ri = Some d\<close> Inr False f ok show ?thesis
          by (auto simp: finish_call_def Let_def)
      qed
    qed
  qed
qed


lemma has_result_hash_list_mem: "x \<in> set xs \<Longrightarrow> has_result_hash x \<Longrightarrow> has_result_hash_list xs"
  by (induction xs) auto

lemma has_result_hash_items_mem:
  "(k, v) \<in> set kvs \<Longrightarrow> has_result_hash v \<Longrightarrow> has_result_hash_items kvs"
  by (induction kvs) auto

lemma deterministic_list_mem:
  "x \<in> set xs \<Longrightarrow> \<not> deterministic_tree e x \<Longrightarrow> \<not> deterministic_list e xs"
  by (induction xs) auto

lemma deterministic_items_mem:
  "(k, v) \<in> set kvs \<Longrightarrow> \<not> deterministic_tree e v \<Longrightarrow> \<not> deterministic_items e kvs"
  by (induction kvs) auto

lemma entry_ok_subst: "entry_ok e k i \<Longrightarrow> subst_ok i"
  by (simp add: entry_ok_def subst_ok_def)

lemma entry_ok_dirty:
  "entry_ok e k i \<Longrightarrow> deterministic_config i \<noteq> None \<Longrightarrow>
   has_result_hash k \<or> \<not> deterministic_tree e k"
  by (auto simp: entry_ok_def clean_def)

lemma list_result_ok:
  assumes "list_result convert xs rs = Inr r"
    and ch: "\<forall>r \<in> set rs. \<exists>x \<in> set xs. entry_ok e x (info r)"
  shows "entry_ok e (ListConfig xs) (info r)"
proof -
  let ?infos = "zip (map Idx [0..<length rs]) (map info rs)"
  from assms(1) obtain ri where c: "combine ?infos (Some (ListConfig xs)) None None = Inr ri"
    and r: "info r = ri"
    by (auto simp: list_result_def split: sum.splits)
  have s: "snd ` set ?infos = info ` set rs"
    by (metis (no_types) length_map length_upt map_snd_zip set_map minus_nat.diff_0)
  have sub: "\<forall>i \<in> snd ` set ?infos. subst_ok i"
    using ch entry_ok_subst unfolding s by blast
  have dirty: "has_result_hash (ListConfig xs) \<or> \<not> deterministic_tree e (ListConfig xs)"
    if "\<exists>i \<in> snd ` set ?infos. deterministic_config i \<noteq> None"
  proof -
    from that obtain r' where "r' \<in> set rs" "deterministic_config (info r') \<noteq> None"
      unfolding s by blast
    with ch obtain x where "x \<in> set xs" "entry_ok e x (info r')" by blast
    with entry_ok_dirty[OF this(2)] \<open>deterministic_config (info r') \<noteq> None\<close>
    show ?thesis
      by (auto dest: has_result_hash_list_mem deterministic_list_mem)
  qed
  have nd: "\<not> not_deterministic ri"
    using c by (auto simp: combine_def Let_def split: sum.splits)
  from combine_parent_ok[OF c sub dirty] nd r show ?thesis by blast
qed

lemma dict_result_ok:
  assumes "dict_result convert kvs krs = Inr r"
    and ch: "\<forall>(k, r) \<in> set krs. \<exists>v \<in> snd ` set kvs. entry_ok e v (info r)"
  shows "entry_ok e (DictConfig kvs) (info r)"
proof -
  let ?infos = "infos_of krs"
  from assms(1) obtain ri where c: "combine ?infos (Some (DictConfig kvs)) None None = Inr ri"
    and r: "info r = ri"
    by (auto simp: dict_result_def split: sum.splits)
  have s: "snd ` set ?infos = (info \<circ> snd) ` set krs"
    by (force simp: infos_of_def)
  have sub: "\<forall>i \<in> snd ` set ?infos. subst_ok i"
    using ch entry_ok_subst unfolding s by fastforce
  have dirty: "has_result_hash (DictConfig kvs) \<or> \<not> deterministic_tree e (DictConfig kvs)"
    if "\<exists>i \<in> snd ` set ?infos. deterministic_config i \<noteq> None"
  proof -
    from that obtain k r' where "(k, r') \<in> set krs" "deterministic_config (info r') \<noteq> None"
      unfolding s by auto
    with ch obtain k' v where "(k', v) \<in> set kvs" "entry_ok e v (info r')" by fastforce
    with entry_ok_dirty[OF this(2)] \<open>deterministic_config (info r') \<noteq> None\<close>
    show ?thesis
      by (auto dest: has_result_hash_items_mem deterministic_items_mem)
  qed
  have nd: "\<not> not_deterministic ri"
    using c by (auto simp: combine_def Let_def split: sum.splits)
  from combine_parent_ok[OF c sub dirty] nd r show ?thesis by blast
qed


lemma call_node_ok:
  assumes ok: "cache_ok e st1"
    and f: "finish_call e kvs target args kwargs (infos_of krs) st1 = (res, st')"
    and t: "map_of kvs ''_target_'' = Some t" "resolve_target e t = Some target"
    and ch: "\<forall>(k, r) \<in> set krs. \<exists>v \<in> snd ` set kvs. entry_ok e v (info r)"
  shows "cache_ok e st' \<and> (\<forall>r. res = Inr r \<longrightarrow> entry_ok e (DictConfig kvs) (info r))"
proof -
  let ?infos = "infos_of krs"
  have s: "snd ` set ?infos = (info \<circ> snd) ` set krs"
    by (force simp: infos_of_def)
  have sub: "\<forall>i \<in> snd ` set ?infos. subst_ok i"
    using ch entry_ok_subst unfolding s by fastforce
  have dirty: "has_result_hash (DictConfig kvs) \<or> \<not> deterministic_tree e (DictConfig kvs)"
    if "\<exists>i \<in> snd ` set ?infos. deterministic_config i \<noteq> None"
  proof -
    from that obtain k r' where "(k, r') \<in> set krs" "deterministic_config (info r') \<noteq> None"
      unfolding s by auto
    with ch obtain k' v where "(k', v) \<in> set kvs" "entry_ok e v (info r')" by fastforce
    with entry_ok_dirty[OF this(2)] \<open>deterministic_config (info r') \<noteq> None\<close>
    show ?thesis
      by (auto dest: has_result_hash_items_mem deterministic_items_mem)
  qed
  from finish_call_ok[OF ok f t sub dirty] show ?thesis by blast
qed

lemma instantiate_ok:
  "cache_ok e st \<Longrightarrow> instantiate_node e convert recursive args st n = (res, st') \<Longrightarrow>
     cache_ok e st' \<and> (\<forall>r. res = Inr r \<longrightarrow> entry_ok e n (info r))"
  "cache_ok e st \<Longrightarrow> instantiate_items e convert recursive st xs = (ress, st') \<Longrightarrow>
     cache_ok e st' \<and> (\<forall>rs. ress = Inr rs \<longrightarrow> (\<forall>r \<in> set rs. \<exists>x \<in> set xs. entry_ok e x (info r)))"
  "cache_ok e st \<Longrightarrow> instantiate_entries e convert recursive skip st kvs = (resk, st') \<Longrightarrow>
     cache_ok e st' \<and>
     (\<forall>krs. resk = Inr krs \<longrightarrow> (\<forall>(k, r) \<in> set krs. \<exists>v \<in> snd ` set kvs. entry_ok e v (info r)))"
proof (induction e convert recursive args st n and e convert recursive st xs
         and e convert recursive skip st kvs
       arbitrary: res st' and ress st' and resk st'
       rule: instantiate_node_instantiate_items_instantiate_entries.induct)
  case (1 e convert recursive args st p)
  then show ?case by (auto simp: entry_ok_def clean_def default_info_def)
next
  case (2 e convert recursive args st n)
  then show ?case by (auto simp: entry_ok_def clean_def default_info_def)
next
  case (3 e convert recursive args st xs)
  then show ?case by (auto simp: entry_ok_def clean_def default_info_def)
next
  case (4 e convert recursive args st kvs)
  then show ?case by (auto simp: entry_ok_def clean_def default_info_def)
next
  case (5 e convert recursive args st xs)
  show ?case
  proof (cases "\<exists>b. recursive = Leaf (PBool b)")
    case False
    with 5(2,3) show ?thesis
      by (auto split: node.splits prim.splits)
  next
    case True
    then obtain b where b: "recursive = Leaf (PBool b)" by blast
    obtain ress st1 where i: "instantiate_items e convert recursive st xs = (ress, st1)"
      by (cases "instantiate_items e convert recursive st xs")
    from 5(1)[OF b refl 5(2) i] have ih: "cache_ok e st1"
      "\<And>rs. ress = Inr rs \<Longrightarrow> \<forall>r \<in> set rs. \<exists>x \<in> set xs. entry_ok e x (info r)"
      by auto
    show ?thesis
    proof (cases ress)
      case (Inl err)
      with 5(3) b i ih show ?thesis by auto
    next
      case (Inr rs)
      with 5(3) b i have "res = list_result convert xs rs" "st' = st1" by auto
      with ih(1) list_result_ok[OF _ ih(2)[OF Inr]] show ?thesis
        by auto
    qed
  qed
next
  case (6 e convert recursive args st kvs)
  define cv where "cv = effective_convert kvs convert"
  define rc where "rc = effective_recursive kvs recursive"
  show ?case
  proof (cases "\<exists>b. rc = Leaf (PBool b)")
    case False
    with 6(3,4) show ?thesis
      by (auto simp: rc_def[symmetric] cv_def[symmetric] Let_def split: node.splits prim.splits)
  next
    case True
    then obtain b where b: "rc = Leaf (PBool b)" by blast
    show ?thesis
    proof (cases "map_of kvs ''_target_''")
      case None
      obtain resk st1 where i: "instantiate_entries e cv rc False st kvs = (resk, st1)"
        by (cases "instantiate_entries e cv rc False st kvs")
      from 6(1)[OF cv_def rc_def b refl None 6(3) i] have ih: "cache_ok e st1"
        "\<And>krs. resk = Inr krs \<Longrightarrow> \<forall>(k, r) \<in> set krs. \<exists>v \<in> snd ` set kvs. entry_ok e v (info r)"
        by auto
      show ?thesis
      proof (cases resk)
        case (Inl err)
        with 6(4) b i ih None show ?thesis
          by (auto simp: rc_def[symmetric] cv_def[symmetric] Let_def)
      next
        case (Inr krs)
        with 6(4) b i None have "res = dict_result cv kvs krs" "st' = st1"
          by (auto simp: rc_def[symmetric] cv_def[symmetric] Let_def)
        with ih(1) dict_result_ok[OF _ ih(2)[OF Inr]] show ?thesis
          by auto
      qed
    next
      case (Some t)
      show ?thesis
      proof (cases "cache_lookup st (DictConfig kvs)")
        case (Some r)
        with 6(3,4) b \<open>map_of kvs ''_target_'' = Some t\<close> show ?thesis
          by (auto simp: rc_def[symmetric] cv_def[symmetric] Let_def dest: cache_ok_lookup)
      next
        case None
        note miss = None
        show ?thesis
        proof (cases "resolve_target e t")
          case None
          with 6(3,4) b miss Some show ?thesis
            by (auto simp: rc_def[symmetric] cv_def[symmetric] Let_def)
        next
          case (Some target)
          note tg = \<open>map_of kvs ''_target_'' = Some t\<close> Some
          show ?thesis
          proof (cases b)
            case False
            with 6(4) b miss tg have
              f: "finish_call e kvs target args
                   (map (\<lambda>(k, v). (k, convert_node v cv)) (filter (\<lambda>(k, v). k \<notin> exclude_keys) kvs))
                   (infos_of []) st = (res, st')"
              by (auto simp: rc_def[symmetric] cv_def[symmetric] Let_def infos_of_def)
            from call_node_ok[OF 6(3) f tg] show ?thesis by simp
          next
            case True
            obtain resk st1 where i: "instantiate_entries e cv rc True st kvs = (resk, st1)"
              by (cases "instantiate_entries e cv rc True st kvs")
            from 6(2)[OF cv_def rc_def b refl tg(1) miss tg(2) True 6(3) i] have ih: "cache_ok e st1"
              "\<And>krs. resk = Inr krs \<Longrightarrow> \<forall>(k, r) \<in> set krs. \<exists>v \<in> snd ` set kvs. entry_ok e v (info r)"
              by auto
            show ?thesis
            proof (cases resk)
              case (Inl err)
              with 6(4) b i ih miss tg True show ?thesis
                by (auto simp: rc_def[symmetric] cv_def[symmetric] Let_def)
            next
              case (Inr krs)
              with 6(4) b i miss tg True have
                f: "finish_call e kvs target args
                     (map (\<lambda>(k, r). (k, convert_node (inst r) cv)) krs) (infos_of krs) st1 = (res, st')"
                by (auto simp: rc_def[symmetric] cv_def[symmetric] Let_def)
              from call_node_ok[OF ih(1) f tg ih(2)[OF Inr]] show ?thesis .
            qed
          qed
        qed
      qed
    qed
  qed
next
  case (7 e convert recursive st)
  then show ?case by auto
next
  case (8 e convert recursive st x xs)
  obtain r1 st1 where i: "instantiate_node e convert recursive [] st x = (r1, st1)"
    by (cases "instantiate_node e convert recursive [] st x")
  from 8(1)[OF 8(3) i] have ih1: "cache_ok e st1" "\<And>r. r1 = Inr r \<Longrightarrow> entry_ok e x (info r)"
    by auto
  show ?case
  proof (cases r1)
    case (Inl err)
    with 8(4) i ih1 show ?thesis by auto
  next
    case (Inr r)
    obtain r2 st2 where j: "instantiate_items e convert recursive st1 xs = (r2, st2)"
      by (cases "instantiate_items e convert recursive st1 xs")
    from 8(2)[OF i[symmetric] Inr ih1(1) j] have ih2: "cache_ok e st2"
      "\<And>rs. r2 = Inr rs \<Longrightarrow> \<forall>r \<in> set rs. \<exists>x \<in> set xs. entry_ok e x (info r)"
      by auto
    from 8(4) i Inr j ih1(2)[OF Inr] ih2 show ?thesis
      by (cases r2) auto
  qed
next
  case (9 e convert recursive skip st)
  then show ?case by auto
next
  case (10 e convert recursive skip st k v kvs)
  show ?case
  proof (cases "skip \<and> k \<in> exclude_keys")
    case True
    with 10(5) have "instantiate_entries e convert recursive skip st kvs = (resk, st')" by simp
    from 10(1)[OF True 10(4) this] show ?thesis by fastforce
  next
    case False
    obtain r1 st1 where i: "instantiate_node e convert recursive [] st v = (r1, st1)"
      by (cases "instantiate_node e convert recursive [] st v")
    from 10(2)[OF False 10(4) i] have ih1: "cache_ok e st1" "\<And>r. r1 = Inr r \<Longrightarrow> entry_ok e v (info r)"
      by auto
    show ?thesis
    proof (cases r1)
      case (Inl err)
      with 10(5) False i ih1 show ?thesis by auto
    next
      case (Inr r)
      obtain r2 st2 where j: "instantiate_entries e convert recursive skip st1 kvs = (r2, st2)"
        by (cases "instantiate_entries e convert recursive skip st1 kvs")
      from 10(3)[OF False i[symmetric] Inr ih1(1) j] have ih2: "cache_ok e st2"
        "\<And>krs. r2 = Inr krs \<Longrightarrow> \<forall>(k, r) \<in> set krs. \<exists>v \<in> snd ` set kvs. entry_ok e v (info r)"
        by auto
      show ?thesis
      proof (cases r2)
        case (Inl err)
        with 10(5) False i Inr j ih2 show ?thesis by auto
      next
        case (Inr krs)
        with 10(5) False i \<open>r1 = Inr r\<close> j have "resk = Inr ((k, r) # krs)" "st' = st2" by auto
        with ih1(2)[OF \<open>r1 = Inr r\<close>] ih2(1) ih2(2)[OF Inr] show ?thesis by fastforce
      qed
    qed
  qed
qed

section \<open>The entries a call leaves\<close>

lemma cache_lookup_store:
  "cache st \<noteq> None \<Longrightarrow> cache_lookup (cache_store st k v) k' = (if k' = k then Some v else cache_lookup st k')"
  by (auto simp: cache_lookup_eq cache_store_def setitem_def update_conv' split: option.splits)

lemma cache_store_active [simp]: "(cache (cache_store st k v) = None) = (cache st = None)"
  by (simp add: cache_store_def)

lemma cache_lookup_calls [simp]: "cache_lookup (st\<lparr>calls := c\<rparr>) k = cache_lookup st k"
  by (simp add: cache_lookup_eq)

lemma call_and_store_entries:
  assumes c: "call_and_store e n target args kwargs infos ti ck ri st = (Inr r, st')"
    and a: "cache st \<noteq> None" and cr: "cache_result (info r)"
  shows "cache_lookup st' n = Some (if ck = n then r else marked r)"
    and "ck \<noteq> n \<Longrightarrow> cache_lookup st' ck = Some r"
    and "k \<noteq> n \<Longrightarrow> k \<noteq> ck \<Longrightarrow> cache_lookup st' k = cache_lookup st k"
  using assms
  by (auto simp: call_and_store_def Let_def cache_lookup_store marked_def
           split: sum.splits if_splits)


lemma finish_call_no_infos:
  assumes f: "finish_call e kvs target args kwargs [] st = (Inr r, st')"
  shows "cache_result (info r) = cache_result (target_info_of target kvs) \<and>
         not_deterministic (info r) = not_deterministic (target_info_of target kvs) \<and>
         deterministic_config (info r) =
           (if not_deterministic (target_info_of target kvs)
            then Some (result_hash (joblib_hash e (inst r))) else None) \<and>
         calls st' = calls st @ [(target, args, kwargs)] \<and>
         (\<forall>k. k \<noteq> DictConfig kvs \<longrightarrow> cache_lookup st' k = cache_lookup st k)"
  using f
  by (auto simp: finish_call_def call_and_store_def combine_def Let_def cache_lookup_eq
        cache_store_def setitem_def update_conv'
      split: if_splits sum.splits option.splits)

lemma finish_call_entries:
  assumes f: "finish_call e kvs target args kwargs infos st = (Inr r, st')"
    and called: "calls st' \<noteq> calls st"
    and active: "cache st \<noteq> None"
    and cr: "cache_result (info r)"
  shows "(\<not> not_deterministic (target_info_of target kvs) \<longrightarrow>
            (case deterministic_config (info r) of
               Some d \<Rightarrow>
                 cache_lookup st' d = Some r \<and>
                 not_deterministic (info r) = False \<and>
                 (d \<noteq> DictConfig kvs \<longrightarrow> cache_lookup st' (DictConfig kvs) = Some (marked r)) \<and>
                 (\<forall>k. k \<noteq> d \<and> k \<noteq> DictConfig kvs \<longrightarrow> cache_lookup st' k = cache_lookup st k)
             | None \<Rightarrow>
                 cache_lookup st' (DictConfig kvs) = Some r \<and>
                 (\<forall>k. k \<noteq> DictConfig kvs \<longrightarrow> cache_lookup st' k = cache_lookup st k))) \<and>
         (not_deterministic (target_info_of target kvs) \<longrightarrow>
            deterministic_config (info r) = Some (result_hash (joblib_hash e (inst r))) \<and>
            cache_lookup st' (DictConfig kvs) = Some r \<and>
            (\<forall>k. k \<noteq> DictConfig kvs \<longrightarrow> cache_lookup st' k = cache_lookup st k)) \<and>
         inst (marked r) = inst r \<and>
         info (marked r) = (info r)\<lparr>not_deterministic := True\<rparr>"
proof (cases "not_deterministic (target_info_of target kvs)")
  case True
  with f have c: "call_and_store e (DictConfig kvs) target args kwargs infos (target_info_of target kvs)
      (DictConfig kvs) None st = (Inr r, st')"
    by (simp add: finish_call_def Let_def)
  have d: "deterministic_config (info r) = Some (result_hash (joblib_hash e (inst r)))"
    using c by (auto simp: call_and_store_def combine_def Let_def split: sum.splits if_splits)
  from call_and_store_entries[OF c active cr] d True show ?thesis
    by (simp add: marked_def)
next
  case False
  from f False obtain ri where
    co: "combine infos (Some (DictConfig kvs)) (Some (target_info_of target kvs)) None = Inr ri"
    by (auto simp: finish_call_def Let_def split: sum.splits)
  have nd: "\<not> not_deterministic ri"
    using co False by (auto simp: combine_def Let_def split: sum.splits)
  show ?thesis
  proof (cases "deterministic_config ri")
    case None
    with f False co have c: "call_and_store e (DictConfig kvs) target args kwargs infos
        (target_info_of target kvs) (DictConfig kvs) (Some ri) st = (Inr r, st')"
      by (simp add: finish_call_def Let_def)
    have "deterministic_config (info r) = None"
      using c None by (auto simp: call_and_store_def Let_def split: sum.splits if_splits)
    with call_and_store_entries[OF c active cr] False show ?thesis
      by (simp add: marked_def)
  next
    case (Some d)
    have miss: "cache_lookup st d = None"
    proof (rule ccontr)
      assume "cache_lookup st d \<noteq> None"
      with f False co Some have "st' = st" by (auto simp: finish_call_def Let_def)
      with called show False by simp
    qed
    with f False co Some have c: "call_and_store e (DictConfig kvs) target args kwargs infos
        (target_info_of target kvs) d (Some ri) st = (Inr r, st')"
      by (simp add: finish_call_def Let_def)
    have i: "deterministic_config (info r) = Some d" "not_deterministic (info r) = False"
      using c Some nd by (auto simp: call_and_store_def Let_def split: sum.splits if_splits)
    have l: "cache_lookup st' d = Some r"
      using call_and_store_entries(1,2)[OF c active cr] by (cases "d = DictConfig kvs") auto
    from call_and_store_entries[OF c active cr] i l False show ?thesis
      by (auto simp: marked_def)
  qed
qed

lemma finish_call_stored:
  assumes f: "finish_call e kvs target args kwargs infos st = (Inr r, st')"
    and called: "calls st' \<noteq> calls st"
    and active: "cache st \<noteq> None"
    and cr: "cache_result (info r)"
  shows "cache_lookup st' (DictConfig kvs) =
     Some (if \<not> not_deterministic (target_info_of target kvs) \<and>
              deterministic_config (info r) \<noteq> None \<and>
              deterministic_config (info r) \<noteq> Some (DictConfig kvs)
           then marked r else r)"
  using finish_call_entries[OF assms]
  by (cases "not_deterministic (target_info_of target kvs)")
     (auto split: option.splits)

section \<open>Errors and the state they leave\<close>

lemma err_of_simps [simp]: "err_of (Inl err) = Some err" "err_of (Inr x) = None"
  by (simp_all add: err_of_def)













section \<open>Substitutes and keys\<close>

lemma has_result_hash_neq: "has_result_hash d \<Longrightarrow> \<not> has_result_hash n \<Longrightarrow> d \<noteq> n"
  by auto







section \<open>The loop of dump\<close>











section \<open>The claims\<close>



text \<open>
  C3, as the code has it. When caching is active, the constructor of a node with a target
  was called and the combined \<open>cache_result\<close> is true: with a deterministic
  constructor and a substitute key, the entry under the substitute key stores the result
  info unchanged, and the entry under the original configuration stores it with
  \<open>not_deterministic\<close> forced to true; both hold the same value, and no other key
  changes. Without a substitute, and for a constructor that is not deterministic (whose
  substitute is the hash of its result), one entry is written, under the original
  configuration, with the result info unchanged.
\<close>

theorem cache_entries_written:
  assumes f: "finish_call e kvs target args kwargs infos st = (Inr r, st')"
    and called: "calls st' \<noteq> calls st"
    and active: "cache st \<noteq> None"
    and cr: "cache_result (info r)"
  shows "(\<not> not_deterministic (target_info_of target kvs) \<longrightarrow>
            (case deterministic_config (info r) of
               Some d \<Rightarrow>
                 cache_lookup st' d = Some r \<and>
                 not_deterministic (info r) = False \<and>
                 (d \<noteq> DictConfig kvs \<longrightarrow> cache_lookup st' (DictConfig kvs) = Some (marked r)) \<and>
                 (\<forall>k. k \<noteq> d \<and> k \<noteq> DictConfig kvs \<longrightarrow> cache_lookup st' k = cache_lookup st k)
             | None \<Rightarrow>
                 cache_lookup st' (DictConfig kvs) = Some r \<and>
                 (\<forall>k. k \<noteq> DictConfig kvs \<longrightarrow> cache_lookup st' k = cache_lookup st k))) \<and>
         (not_deterministic (target_info_of target kvs) \<longrightarrow>
            deterministic_config (info r) = Some (result_hash (joblib_hash e (inst r))) \<and>
            cache_lookup st' (DictConfig kvs) = Some r \<and>
            (\<forall>k. k \<noteq> DictConfig kvs \<longrightarrow> cache_lookup st' k = cache_lookup st k)) \<and>
         inst (marked r) = inst r \<and>
         info (marked r) = (info r)\<lparr>not_deterministic := True\<rparr>"
  using assms by (rule finish_call_entries)

theorem cache_entries_written_witness:
  "cache_lookup (snd ex_finish_consumer) (ex_substitute ''h7'') = Some (projr (fst ex_finish_consumer)) \<and>
   cache_lookup (snd ex_finish_consumer) ex_consumer = Some (marked (projr (fst ex_finish_consumer))) \<and>
   not_deterministic (info (projr (fst ex_finish_consumer))) = False \<and>
   ex_finish_consumer = ex_run_consumer"
  using cache_entries_written[where e = "ex_env 7"
      and kvs = "[(''_target_'', Leaf (PStr ''consumer'')), (''x'', ex_random)]"
      and target = f_consumer and args = "[]" and kwargs = "[(''x'', Leaf (PInt 7))]"
      and infos = "[(Key ''x'', info (projr (fst ex_run_random)))]" and st = "snd ex_run_random"
      and r = "projr (fst ex_finish_consumer)" and st' = "snd ex_finish_consumer"]
  by (simp add: ex_defs eval_defs)

theorem cache_entries_written_counterexample:
  "map_option (not_deterministic \<circ> info) (cache_lookup (snd ex_run_consumer) ex_consumer) = Some True \<and>
   map_option (not_deterministic \<circ> info) (cache_lookup (snd ex_run_consumer) (ex_substitute ''h7''))
     = Some False \<and>
   map_option info (cache_lookup (snd ex_run_consumer) ex_consumer) \<noteq> Some (info (projr (fst ex_run_consumer))) \<and>
   map_option info (cache_lookup (snd ex_run_consumer) (ex_substitute ''h7'')) = Some (info (projr (fst ex_run_consumer)))"
  by (simp add: ex_defs eval_defs)

text \<open>
  C10, as the code has it. A node with a target whose effective \<open>recursive\<close> flag is
  false, on a miss, evaluates no child: \<open>combine\<close> gets no child info, the constructor
  gets the entries as the configuration has them, and only the key of the node itself
  can change in the cache. The \<open>cache_result\<close> of the result is the node's own
  \<open>_cache_result_\<close> flag and \<open>not_deterministic\<close> is the mark of its own
  constructor, whatever the children hold. The substitute is absent when the constructor
  is deterministic; for a constructor that is not deterministic it is the placeholder
  with the hash of the node's own result.
\<close>

theorem not_recursive_call:
  assumes "map_of kvs ''_target_'' = Some t"
    and "effective_recursive kvs recursive = Leaf (PBool False)"
    and "cache_lookup st (DictConfig kvs) = None"
    and "resolve_target e t = Some target"
  shows "instantiate_node e convert recursive args st (DictConfig kvs) =
           finish_call e kvs target args (raw_kwargs kvs (effective_convert kvs convert)) [] st \<and>
         (\<forall>r st'. instantiate_node e convert recursive args st (DictConfig kvs) = (Inr r, st') \<longrightarrow>
            cache_result (info r) =
              (case map_of kvs ''_cache_result_'' of None \<Rightarrow> True | Some v \<Rightarrow> truthy v) \<and>
            not_deterministic (info r) = fi_not_deterministic (FuncInfo_from_func target) \<and>
            deterministic_config (info r) =
              (if fi_not_deterministic (FuncInfo_from_func target)
               then Some (result_hash (joblib_hash e (inst r))) else None) \<and>
            calls st' = calls st @ [(target, args, raw_kwargs kvs (effective_convert kvs convert))] \<and>
            (\<forall>k. k \<noteq> DictConfig kvs \<longrightarrow> cache_lookup st' k = cache_lookup st k))"
proof -
  have eq: "instantiate_node e convert recursive args st (DictConfig kvs) =
           finish_call e kvs target args (raw_kwargs kvs (effective_convert kvs convert)) [] st"
    using assms by (simp add: instantiate_node_miss[where rc = False] raw_kwargs_def)
  show ?thesis
    using finish_call_no_infos[of e kvs target args "raw_kwargs kvs (effective_convert kvs convert)" st]
    unfolding eq by (simp add: target_info_of_def)
qed

theorem not_recursive_call_witness:
  "deterministic_config (info (projr (fst (instantiate_node (ex_env 7) CM_NONE py_true [] empty_cache
       (call_node ''consumer'' [(''_recursive_'', Leaf (PBool False)), (''x'', ex_random)])))))
     = None \<and>
   calls (snd (instantiate_node (ex_env 7) CM_NONE py_true [] empty_cache
       (call_node ''consumer'' [(''_recursive_'', Leaf (PBool False)), (''x'', ex_random)])))
     = [(f_consumer, [], [(''x'', ex_random)])]"
  using not_recursive_call[where e = "ex_env 7" and convert = CM_NONE and recursive = py_true
      and args = "[]" and st = empty_cache and t = "Leaf (PStr ''consumer'')" and target = f_consumer
      and kvs = "[(''_target_'', Leaf (PStr ''consumer'')), (''_recursive_'', Leaf (PBool False)),
                  (''x'', ex_random)]"]
  by (simp add: ex_defs eval_defs)

theorem not_recursive_call_counterexample:
  "effective_recursive [(''_target_'', Leaf (PStr ''random_source'')), (''_recursive_'', Leaf (PBool False))]
     py_true = Leaf (PBool False) \<and>
   map_sum id (deterministic_config \<circ> info)
     (fst (instantiate_node (ex_env 7) CM_NONE py_true [] empty_cache ex_random_flat))
     = Inr (Some (result_hash ''h7''))"
  by (simp add: ex_defs eval_defs)

text \<open>
  C1, as the code has it. A node with a target and a valid \<open>recursive\<close> flag that is a
  key of the active cache evaluates to the stored pair at once: the state is returned as
  it was, so no child is evaluated, no constructor is called and nothing is written.
  Consequently, after an evaluation that called the constructor of the node with the
  combined \<open>cache_result\<close> true, every further evaluation against that cache, in any
  environment, returns the pair stored under the node and calls no constructor. The
  stored pair holds the value the first evaluation returned, and the same info, but with
  \<open>not_deterministic\<close> forced to true when the first evaluation used a substitute key.
\<close>

theorem cache_hit_returns_entry:
  "(map_of kvs ''_target_'' = Some t \<and> effective_recursive kvs recursive = Leaf (PBool rc) \<and>
    cache_lookup st (DictConfig kvs) = Some r \<longrightarrow>
      instantiate_node e convert recursive args st (DictConfig kvs) = (Inr r, st)) \<and>
   (map_of kvs ''_target_'' = Some t \<and> effective_recursive kvs recursive = Leaf (PBool rc) \<and>
    finish_call e kvs target args kwargs infos st0 = (Inr r1, st1) \<and>
    calls st1 \<noteq> calls st0 \<and> cache st0 \<noteq> None \<and> cache_result (info r1) \<longrightarrow>
      instantiate_node e' convert' recursive args' st1 (DictConfig kvs) =
        (Inr (if \<not> not_deterministic (target_info_of target kvs) \<and>
                 deterministic_config (info r1) \<noteq> None \<and>
                 deterministic_config (info r1) \<noteq> Some (DictConfig kvs)
              then marked r1 else r1), st1) \<and>
      inst (marked r1) = inst r1 \<and>
      info (marked r1) = (info r1)\<lparr>not_deterministic := True\<rparr>)"
proof (intro conjI impI)
  assume "map_of kvs ''_target_'' = Some t \<and> effective_recursive kvs recursive = Leaf (PBool rc) \<and>
    cache_lookup st (DictConfig kvs) = Some r"
  then show "instantiate_node e convert recursive args st (DictConfig kvs) = (Inr r, st)"
    by (simp add: instantiate_node_hit)
next
  assume a: "map_of kvs ''_target_'' = Some t \<and> effective_recursive kvs recursive = Leaf (PBool rc) \<and>
    finish_call e kvs target args kwargs infos st0 = (Inr r1, st1) \<and>
    calls st1 \<noteq> calls st0 \<and> cache st0 \<noteq> None \<and> cache_result (info r1)"
  then have "cache_lookup st1 (DictConfig kvs) =
     Some (if \<not> not_deterministic (target_info_of target kvs) \<and>
              deterministic_config (info r1) \<noteq> None \<and>
              deterministic_config (info r1) \<noteq> Some (DictConfig kvs)
           then marked r1 else r1)"
    using finish_call_stored[of e kvs target args kwargs infos st0 r1 st1] by blast
  with a show "instantiate_node e' convert' recursive args' st1 (DictConfig kvs) =
        (Inr (if \<not> not_deterministic (target_info_of target kvs) \<and>
                 deterministic_config (info r1) \<noteq> None \<and>
                 deterministic_config (info r1) \<noteq> Some (DictConfig kvs)
              then marked r1 else r1), st1)"
    by (simp add: instantiate_node_hit)
next
  show "inst (marked r1) = inst r1" by (simp add: marked_def)
  show "info (marked r1) = (info r1)\<lparr>not_deterministic := True\<rparr>" by (simp add: marked_def)
qed

theorem cache_hit_returns_entry_witness:
  "instantiate_node (ex_env 8) CM_ALL py_true [Obj 3] (snd ex_finish_consumer) ex_consumer =
     (Inr (marked (projr (fst ex_finish_consumer))), snd ex_finish_consumer) \<and>
   ex_finish_consumer = ex_run_consumer"
  using cache_hit_returns_entry[where e = "ex_env 7" and e' = "ex_env 8" and convert' = CM_ALL
      and recursive = py_true and args' = "[Obj 3]" and rc = True
      and kvs = "[(''_target_'', Leaf (PStr ''consumer'')), (''x'', ex_random)]"
      and t = "Leaf (PStr ''consumer'')"
      and target = f_consumer and args = "[]" and kwargs = "[(''x'', Leaf (PInt 7))]"
      and infos = "[(Key ''x'', info (projr (fst ex_run_random)))]" and ?st0.0 = "snd ex_run_random"
      and ?r1.0 = "projr (fst ex_finish_consumer)" and ?st1.0 = "snd ex_finish_consumer"]
  by (simp add: ex_defs eval_defs)

theorem cache_hit_returns_entry_counterexample:
  "fst (instantiate_node (ex_env 7) CM_NONE py_true [] (snd ex_run_consumer) ex_consumer)
     \<noteq> fst ex_run_consumer \<and>
   length (calls (snd (instantiate_node (ex_env 7) CM_NONE py_true [] (snd ex_run_uncached) ex_uncached)))
     = 2"
  by (simp add: ex_defs eval_defs)



text \<open>
  C4, as the code has it. The info that \<open>combine\<close> produces has \<open>not_deterministic\<close>
  equal to the flag of the target info it is given, and false when it is given none: the
  flag is never taken from the children. A configuration all of whose constructors are
  deterministic and which does not hold the reserved key \<open>_result_hash_\<close> evaluates, at
  any depth and against any cache whose entries the evaluator could have written, to an
  info with \<open>not_deterministic\<close> false and no substitute, and leaves such a cache.
\<close>

theorem no_cross_contamination:
  "(\<forall>r. combine infos parent ti dc = Inr r \<longrightarrow>
      not_deterministic r = (case ti of None \<Rightarrow> False | Some t \<Rightarrow> not_deterministic t)) \<and>
   (cache_ok e st \<and> deterministic_tree e n \<and> \<not> has_result_hash n \<and>
    instantiate_node e convert recursive args st n = (Inr r', st') \<longrightarrow>
      not_deterministic (info r') = False \<and> deterministic_config (info r') = None \<and>
      cache_ok e st')"
proof (intro conjI allI impI)
  fix r assume "combine infos parent ti dc = Inr r"
  then show "not_deterministic r = (case ti of None \<Rightarrow> False | Some t \<Rightarrow> not_deterministic t)"
    by (rule combine_not_deterministic)
next
  assume a: "cache_ok e st \<and> deterministic_tree e n \<and> \<not> has_result_hash n \<and>
    instantiate_node e convert recursive args st n = (Inr r', st')"
  then have ok: "cache_ok e st" and i: "instantiate_node e convert recursive args st n = (Inr r', st')"
    by simp_all
  from instantiate_ok(1)[OF ok i] a
  show "not_deterministic (info r') = False" "deterministic_config (info r') = None" "cache_ok e st'"
    by (auto simp: entry_ok_def clean_def)
qed

theorem no_cross_contamination_witness:
  "cache_ok (ex_env 7) ex_after_consumer \<and>
   info (projr (fst (instantiate_node (ex_env 7) CM_NONE py_true [] ex_after_consumer ex_sum))) =
     \<lparr>not_deterministic = False, cache_result = True, deterministic_config = None,
      time_target = Some 5\<rparr>"
  using no_cross_contamination[where e = "ex_env 7" and st = ex_after_consumer and n = ex_sum
      and convert = CM_NONE and recursive = py_true and args = "[]"
      and r' = "projr (fst (instantiate_node (ex_env 7) CM_NONE py_true [] ex_after_consumer ex_sum))"
      and st' = "snd (instantiate_node (ex_env 7) CM_NONE py_true [] ex_after_consumer ex_sum)",
      THEN conjunct2]
  by (simp add: ex_defs eval_defs pred_defs)

theorem no_cross_contamination_counterexample:
  "deterministic_tree (ex_env 7) (ex_substitute ''h7'') \<and>
   map_sum id (deterministic_config \<circ> info)
     (fst (instantiate_node (ex_env 7) CM_NONE py_true [] ex_after_consumer (ex_substitute ''h7'')))
     \<noteq> Inr None"
  by (simp add: ex_defs eval_defs)

text \<open>
  C6, as the code has it. Against a cache whose entries the evaluator could have written,
  every substitute in the info of an evaluated node holds a placeholder with the key
  \<open>_result_hash_\<close> (it is the placeholder, or a copy of the configuration with
  placeholders written into it). So the substitute differs from the configuration of the
  node whenever that configuration does not hold the reserved key \<open>_result_hash_\<close>
  itself.
\<close>

theorem substitute_differs:
  "cache_ok e st \<and> instantiate_node e convert recursive args st n = (Inr r, st') \<and>
   deterministic_config (info r) = Some d \<longrightarrow>
     has_result_hash d \<and> (\<not> has_result_hash n \<longrightarrow> d \<noteq> n) \<and> cache_ok e st'"
proof
  assume a: "cache_ok e st \<and> instantiate_node e convert recursive args st n = (Inr r, st') \<and>
   deterministic_config (info r) = Some d"
  then have ok: "cache_ok e st" and i: "instantiate_node e convert recursive args st n = (Inr r, st')"
    by simp_all
  from instantiate_ok(1)[OF ok i] a have "has_result_hash d" "cache_ok e st'"
    by (auto simp: entry_ok_def)
  then show "has_result_hash d \<and> (\<not> has_result_hash n \<longrightarrow> d \<noteq> n) \<and> cache_ok e st'"
    by (auto dest: has_result_hash_neq)
qed

theorem substitute_differs_witness:
  "deterministic_config (info (projr (fst ex_run_consumer))) = Some (ex_substitute ''h7'') \<and>
   ex_substitute ''h7'' \<noteq> ex_consumer"
  using substitute_differs[where e = "ex_env 7" and st = empty_cache and n = ex_consumer
      and convert = CM_NONE and recursive = py_true and args = "[]"
      and r = "projr (fst ex_run_consumer)" and st' = "snd ex_run_consumer"
      and d = "ex_substitute ''h7''"]
  by (simp add: ex_defs eval_defs pred_defs)

theorem substitute_differs_counterexample:
  "map_sum id (deterministic_config \<circ> info)
     (fst (instantiate_node (ex_env 7) CM_NONE py_true [] ex_after_consumer (ex_substitute ''h7'')))
     = Inr (Some (ex_substitute ''h7''))"
  by (simp add: ex_defs eval_defs)






end
